theory Spec2Isabelle
  imports Main "HOL-Library.Word"
begin

unbundle bit_operations_syntax

section \<open>Vector kernels (src/TiledArray/math/vector\_op.h)\<close>

text \<open>
  The unroll width. The header accepts no other value than its default: the preprocessor
  test that guards a user-supplied value is a disjunction of inequalities and so always
  raises \<^verbatim>\<open>#error\<close>.
\<close>

definition TILEDARRAY_LOOP_UNWIND :: nat where
  "TILEDARRAY_LOOP_UNWIND = 8"

text \<open>\<^verbatim>\<open>std::size_t\<close> on the LP64 targets of the library.\<close>

type_synonym size_t = "64 word"

text \<open>
  An array that the kernels write to. Besides its cells it records, in order, the index of
  every store made to it, so that "each index is written once" is a statement about the
  model. Arrays that are only read are plain lists. The pointers of one call are
  \<^verbatim>\<open>restrict\<close>-qualified, hence distinct arrays; a pointer \<^verbatim>\<open>p + k\<close> is
  the array together with the base index \<open>k\<close>. Reads and stores outside an array are
  undefined behaviour in the source; the theorems below assume the arrays are long enough.
\<close>

record 'a buffer =
  cells :: "'a list"
  written :: "nat list"

definition store :: "'a buffer \<Rightarrow> nat \<Rightarrow> 'a \<Rightarrow> 'a buffer" where
  "store b k v = \<lparr>cells = (cells b)[k := v], written = written b @ [k]\<rparr>"

definition fresh :: "'a list \<Rightarrow> 'a buffer" where
  "fresh xs = \<lparr>cells = xs, written = []\<rparr>"

text \<open>
  \<^verbatim>\<open>VectorOpUnwind<N>::offset\<close>; the terminating specialisation
  \<^verbatim>\<open>VectorOpUnwind<0>\<close> has \<^verbatim>\<open>TILEDARRAY_LOOP_UNWIND - 1\<close>, the same formula at
  \<open>N = 0\<close>.
\<close>

definition offset :: "nat \<Rightarrow> nat" where
  "offset N = TILEDARRAY_LOOP_UNWIND - N - 1"

text \<open>\<^verbatim>\<open>VectorOpUnwind<N>::copy(arg, result)\<close>, with \<open>arg\<close> based at \<open>a\<close> and
  \<open>result\<close> based at \<open>r\<close>.\<close>

fun VectorOpUnwind_copy :: "nat \<Rightarrow> 'a list \<Rightarrow> nat \<Rightarrow> 'a buffer \<Rightarrow> nat \<Rightarrow> 'a buffer" where
  "VectorOpUnwind_copy 0 arg a result r =
     store result (r + offset 0) (arg ! (a + offset 0))"
| "VectorOpUnwind_copy (Suc N) arg a result r =
     VectorOpUnwind_copy N arg a
       (store result (r + offset (Suc N)) (arg ! (a + offset (Suc N)))) r"

text \<open>\<^verbatim>\<open>VectorOpUnwind<N>::scatter(arg, result, stride)\<close>: \<open>result\<close> is based at \<open>r\<close>
  and advances by \<open>stride\<close> in the recursive call.\<close>

fun VectorOpUnwind_scatter :: "nat \<Rightarrow> 'a list \<Rightarrow> 'a buffer \<Rightarrow> nat \<Rightarrow> nat \<Rightarrow> 'a buffer" where
  "VectorOpUnwind_scatter 0 arg result r stride =
     store result r (arg ! offset 0)"
| "VectorOpUnwind_scatter (Suc N) arg result r stride =
     VectorOpUnwind_scatter N arg (store result r (arg ! offset (Suc N))) (r + stride) stride"

text \<open>\<^verbatim>\<open>VectorOpUnwind<N>::gather(arg, result, stride)\<close>: \<open>arg\<close> is based at \<open>a\<close> and
  advances by \<open>stride\<close> in the recursive call. The terminating specialisation stores
  \<^verbatim>\<open>*result = arg[offset]\<close>.\<close>

fun VectorOpUnwind_gather :: "nat \<Rightarrow> 'a list \<Rightarrow> nat \<Rightarrow> 'a buffer \<Rightarrow> nat \<Rightarrow> 'a buffer" where
  "VectorOpUnwind_gather 0 arg a result stride =
     store result 0 (arg ! (a + offset 0))"
| "VectorOpUnwind_gather (Suc N) arg a result stride =
     VectorOpUnwind_gather N arg (a + stride) (store result (offset (Suc N)) (arg ! a)) stride"

text \<open>\<^verbatim>\<open>VectorOpUnwind<N>::binary(left, right, result, op)\<close>, on whole blocks.\<close>

fun VectorOpUnwind_binary ::
  "nat \<Rightarrow> 'l list \<Rightarrow> 'r list \<Rightarrow> 'c buffer \<Rightarrow> ('l \<Rightarrow> 'r \<Rightarrow> 'c) \<Rightarrow> 'c buffer" where
  "VectorOpUnwind_binary 0 left right result op =
     store result (offset 0) (op (left ! offset 0) (right ! offset 0))"
| "VectorOpUnwind_binary (Suc N) left right result op =
     VectorOpUnwind_binary N left right
       (store result (offset (Suc N)) (op (left ! offset (Suc N)) (right ! offset (Suc N)))) op"

text \<open>\<^verbatim>\<open>VectorOpUnwind<N>::binary(arg, result, op)\<close>: \<open>op\<close> updates its first argument
  in place, which the model renders as the value it leaves there.\<close>

fun VectorOpUnwind_binary_to ::
  "nat \<Rightarrow> 'a list \<Rightarrow> 'c buffer \<Rightarrow> ('c \<Rightarrow> 'a \<Rightarrow> 'c) \<Rightarrow> 'c buffer" where
  "VectorOpUnwind_binary_to 0 arg result op =
     store result (offset 0) (op (cells result ! offset 0) (arg ! offset 0))"
| "VectorOpUnwind_binary_to (Suc N) arg result op =
     VectorOpUnwind_binary_to N arg
       (store result (offset (Suc N)) (op (cells result ! offset (Suc N)) (arg ! offset (Suc N)))) op"

text \<open>\<^verbatim>\<open>typedef VectorOpUnwind<TILEDARRAY_LOOP_UNWIND - 1> VecOpUnwindN\<close> and
  \<^verbatim>\<open>index_mask\<close>.\<close>

definition VecOpUnwindN :: nat where
  "VecOpUnwindN = TILEDARRAY_LOOP_UNWIND - 1"

definition index_mask :: size_t where
  "index_mask = NOT (word_of_nat (TILEDARRAY_LOOP_UNWIND - 1))"

text \<open>
  \<^verbatim>\<open>binary_vector_op(n, left, right, result, op)\<close>. The block loop and the remainder
  loop share the counter \<open>i\<close>; each returns it with the array. The counter never wraps:
  it stays at most \<open>nx \<le> n\<close>, and is a \<open>nat\<close>. The local block arrays are
  uninitialised where they are declared; \<open>lb\<close>, \<open>rb\<close> and \<open>cb\<close> are their
  indeterminate first contents.
\<close>

function binary_vector_op_blocks ::
  "nat \<Rightarrow> nat \<Rightarrow> 'l list \<Rightarrow> 'r list \<Rightarrow> 'c buffer \<Rightarrow> ('l \<Rightarrow> 'r \<Rightarrow> 'c)
    \<Rightarrow> 'l list \<Rightarrow> 'r list \<Rightarrow> 'c list \<Rightarrow> nat \<times> 'c buffer" where
  "binary_vector_op_blocks i nx left right result op lb rb cb =
     (if i < nx then
        let left_block = cells (VectorOpUnwind_copy VecOpUnwindN left i (fresh lb) 0);
            right_block = cells (VectorOpUnwind_copy VecOpUnwindN right i (fresh rb) 0);
            result_block =
              cells (VectorOpUnwind_binary VecOpUnwindN left_block right_block (fresh cb) op);
            result' = VectorOpUnwind_copy VecOpUnwindN result_block 0 result i
        in binary_vector_op_blocks (i + TILEDARRAY_LOOP_UNWIND) nx left right result' op lb rb cb
      else (i, result))"
  by pat_completeness auto
termination
  by (relation "measure (\<lambda>(i, nx, _). nx - i)") (auto simp: TILEDARRAY_LOOP_UNWIND_def)

function binary_vector_op_rest ::
  "nat \<Rightarrow> nat \<Rightarrow> 'l list \<Rightarrow> 'r list \<Rightarrow> 'c buffer \<Rightarrow> ('l \<Rightarrow> 'r \<Rightarrow> 'c) \<Rightarrow> 'c buffer" where
  "binary_vector_op_rest i n left right result op =
     (if i < n then
        let left_i = left ! i;
            right_i = right ! i;
            temp_i = op left_i right_i
        in binary_vector_op_rest (Suc i) n left right (store result i temp_i) op
      else result)"
  by pat_completeness auto
termination
  by (relation "measure (\<lambda>(i, n, _). n - i)") auto

definition binary_vector_op ::
  "size_t \<Rightarrow> 'l list \<Rightarrow> 'r list \<Rightarrow> 'c buffer \<Rightarrow> ('l \<Rightarrow> 'r \<Rightarrow> 'c)
    \<Rightarrow> 'l list \<Rightarrow> 'r list \<Rightarrow> 'c list \<Rightarrow> 'c buffer" where
  "binary_vector_op n left right result op lb rb cb =
     (let nx = n AND index_mask;
          (i, result') = binary_vector_op_blocks 0 (unat nx) left right result op lb rb cb
      in binary_vector_op_rest i (unat n) left right result' op)"

text \<open>\<^verbatim>\<open>binary_vector_op(n, arg, result, op)\<close>, the in-place overload.\<close>

function binary_vector_op_to_blocks ::
  "nat \<Rightarrow> nat \<Rightarrow> 'a list \<Rightarrow> 'c buffer \<Rightarrow> ('c \<Rightarrow> 'a \<Rightarrow> 'c)
    \<Rightarrow> 'a list \<Rightarrow> 'c list \<Rightarrow> nat \<times> 'c buffer" where
  "binary_vector_op_to_blocks i nx arg result op ab cb =
     (if i < nx then
        let result_block = VectorOpUnwind_copy VecOpUnwindN (cells result) i (fresh cb) 0;
            arg_block = cells (VectorOpUnwind_copy VecOpUnwindN arg i (fresh ab) 0);
            result_block' = cells (VectorOpUnwind_binary_to VecOpUnwindN arg_block result_block op);
            result' = VectorOpUnwind_copy VecOpUnwindN result_block' 0 result i
        in binary_vector_op_to_blocks (i + TILEDARRAY_LOOP_UNWIND) nx arg result' op ab cb
      else (i, result))"
  by pat_completeness auto
termination
  by (relation "measure (\<lambda>(i, nx, _). nx - i)") (auto simp: TILEDARRAY_LOOP_UNWIND_def)

function binary_vector_op_to_rest ::
  "nat \<Rightarrow> nat \<Rightarrow> 'a list \<Rightarrow> 'c buffer \<Rightarrow> ('c \<Rightarrow> 'a \<Rightarrow> 'c) \<Rightarrow> 'c buffer" where
  "binary_vector_op_to_rest i n arg result op =
     (if i < n then
        let result_block = cells result ! i;
            arg_block = arg ! i
        in binary_vector_op_to_rest (Suc i) n arg (store result i (op result_block arg_block)) op
      else result)"
  by pat_completeness auto
termination
  by (relation "measure (\<lambda>(i, n, _). n - i)") auto

definition binary_vector_op_to ::
  "size_t \<Rightarrow> 'a list \<Rightarrow> 'c buffer \<Rightarrow> ('c \<Rightarrow> 'a \<Rightarrow> 'c) \<Rightarrow> 'a list \<Rightarrow> 'c list \<Rightarrow> 'c buffer" where
  "binary_vector_op_to n arg result op ab cb =
     (let nx = n AND index_mask;
          (i, result') = binary_vector_op_to_blocks 0 (unat nx) arg result op ab cb
      in binary_vector_op_to_rest i (unat n) arg result' op)"

section \<open>Tiling from symmetry labels (examples/ccd/input\_data.cpp)\<close>

text \<open>
  A one-dimensional tiling is its list of tile boundaries. The class itself is not among the
  sources; \<^verbatim>\<open>TiledRange1(tiles.begin(), tiles.end())\<close> is taken to keep the boundary
  list it is given.
\<close>

datatype TiledRange1 = TiledRange1 (boundaries: "nat list")

text \<open>
  The loop of \<^verbatim>\<open>InputData::make_trange1\<close>. The label sequence that starts at
  \<^verbatim>\<open>begin\<close> is the list \<open>labels\<close>; the iterators \<open>first\<close> and \<open>last\<close> (here \<open>last'\<close>)
  are positions in it, so \<^verbatim>\<open>std::distance(begin, first)\<close> is \<open>first\<close> and
  \<^verbatim>\<open>*first\<close> is \<open>labels ! first\<close>. The source tests \<^verbatim>\<open>first != last\<close>, which for
  \<open>first \<le> last\<close> is \<open>first < last\<close>; \<open>make_trange1\<close> below admits no other case.
  The loop returns the iterator with the vector.
\<close>

function make_trange1_loop :: "'a list \<Rightarrow> nat \<Rightarrow> nat \<Rightarrow> 'a \<Rightarrow> nat list \<Rightarrow> nat \<times> nat list" where
  "make_trange1_loop labels first last' current tiles =
     (if first < last' then
        (if labels ! first \<noteq> current
         then make_trange1_loop labels (Suc first) last' (labels ! first) (tiles @ [first])
         else make_trange1_loop labels (Suc first) last' current tiles)
      else (first, tiles))"
  by pat_completeness auto
termination
  by (relation "measure (\<lambda>(labels, first, last', _). last' - first)") auto

text \<open>
  \<^verbatim>\<open>InputData::make_trange1(begin, first, last)\<close>. Dereferencing \<open>first\<close> past the end
  of the sequence, or a range that is not a range of the sequence, is undefined behaviour
  in the source: \<open>None\<close>.
\<close>

definition make_trange1 :: "'a list \<Rightarrow> nat \<Rightarrow> nat \<Rightarrow> TiledRange1 option" where
  "make_trange1 labels first last' =
     (if first < length labels \<and> first \<le> last' \<and> last' \<le> length labels then
        let current = labels ! first;
            tiles = [first];
            (first', tiles') = make_trange1_loop labels first last' current tiles
        in Some (TiledRange1 (tiles' @ [first']))
      else None)"

section \<open>Element lookup in a one-dimensional tiling\<close>

datatype ta_error = IndexOutOfRange | AssertionFailure

text \<open>
  Modelled from the spec: \<^verbatim>\<open>TiledRange1::element_to_tile\<close> is not among the sources.
  The spec has it perform a boundary search and fail with \<open>IndexOutOfRange\<close> if the element
  lies outside the covered span, which runs from the first boundary up to, not including,
  the last. The tile of an element inside the span is the one whose lower boundary is the
  last boundary not above the element.
\<close>

definition element_to_tile :: "TiledRange1 \<Rightarrow> nat \<Rightarrow> ta_error + nat" where
  "element_to_tile tr element_index =
     (let bs = boundaries tr in
      if bs = [] \<or> element_index < hd bs \<or> last bs \<le> element_index then Inl IndexOutOfRange
      else Inr (length (takeWhile (\<lambda>b. b \<le> element_index) bs) - 1))"

section \<open>Permuted tiled tensor (src/TiledArray/permute\_tiled\_tensor.h)\<close>

datatype DimensionOrderType = decreasing_dimension_order | increasing_dimension_order

text \<open>
  Modelled from the spec: \<^verbatim>\<open>detail::Bitset\<close> is not among the sources. The spec has the
  shape stored as a bit set that is iterated in fixed-size blocks. A bit set of \<open>n\<close> bits
  is the list of its bits, all clear when it is made; \<open>count\<close> is the number of bits of a
  block (\<^verbatim>\<open>8 * sizeof(block_type)\<close> in the source, for the default block type
  \<^verbatim>\<open>unsigned long\<close>); \<^verbatim>\<open>bs[i]\<close> and \<^verbatim>\<open>bs.set(i)\<close> assert \<open>i\<close> to be below
  the size; \<^verbatim>\<open>bs.get()[b]\<close> is block \<open>b\<close>, read as a truth value: some bit of the block
  is set.
\<close>

type_synonym Bitset = "bool list"

definition count :: nat where
  "count = 64"

definition Bitset_new :: "nat \<Rightarrow> Bitset" where
  "Bitset_new n = replicate n False"

definition num_blocks :: "Bitset \<Rightarrow> nat" where
  "num_blocks bs = length bs div count + (if length bs mod count = 0 then 0 else 1)"

definition Bitset_test :: "Bitset \<Rightarrow> nat \<Rightarrow> ta_error + bool" where
  "Bitset_test bs i = (if i < length bs then Inr (bs ! i) else Inl AssertionFailure)"

definition Bitset_set :: "Bitset \<Rightarrow> nat \<Rightarrow> ta_error + Bitset" where
  "Bitset_set bs i = (if i < length bs then Inr (bs[i := True]) else Inl AssertionFailure)"

definition Bitset_block :: "Bitset \<Rightarrow> nat \<Rightarrow> bool" where
  "Bitset_block bs b = list_ex id (take count (drop (b * count) bs))"

text \<open>
  Modelled from the spec: \<^verbatim>\<open>Permutation\<close> and \<^verbatim>\<open>CoordinateSystem\<close> are not among
  the sources. A permutation is the list of the places its dimensions go to:
  \<^verbatim>\<open>p ^ a\<close> (and \<^verbatim>\<open>permute_array\<close>) puts \<open>a[i]\<close> at place \<open>p[i]\<close>, and \<^verbatim>\<open>-p\<close>
  is the inverse. The weight of a dimension is the stride of its coordinate in the tile
  ordinal, so that the ordinal is the sum of coordinate times weight: with decreasing
  dimension order the last dimension is the fastest, with increasing order the first.
  \<^verbatim>\<open>increment_coordinate\<close> steps a coordinate to the next one in ordinal order, within
  \<open>start\<close> and \<open>finish\<close>.
\<close>

type_synonym Permutation = "nat list"

definition permute_array :: "Permutation \<Rightarrow> nat list \<Rightarrow> nat list" where
  "permute_array p a = fold (\<lambda>i r. r[p ! i := a ! i]) [0..<length p] (replicate (length p) 0)"

definition perm_inverse :: "Permutation \<Rightarrow> Permutation" where
  "perm_inverse p = fold (\<lambda>i r. r[p ! i := i]) [0..<length p] (replicate (length p) 0)"

definition calc_weight :: "DimensionOrderType \<Rightarrow> nat list \<Rightarrow> nat list" where
  "calc_weight dim_order sizes =
     (case dim_order of
        decreasing_dimension_order \<Rightarrow> map (\<lambda>i. prod_list (drop (Suc i) sizes)) [0..<length sizes]
      | increasing_dimension_order \<Rightarrow> map (\<lambda>i. prod_list (take i sizes)) [0..<length sizes])"

definition calc_ordinal :: "nat list \<Rightarrow> nat list \<Rightarrow> nat" where
  "calc_ordinal index weight = sum_list (map2 (*) index weight)"

fun increment_first :: "nat list \<Rightarrow> nat list \<Rightarrow> nat list \<Rightarrow> nat list" where
  "increment_first (i # is) (s # ss) (f # fs) =
     (if Suc i < f then Suc i # is else s # increment_first is ss fs)"
| "increment_first is _ _ = is"

definition increment_coordinate ::
  "DimensionOrderType \<Rightarrow> nat list \<Rightarrow> nat list \<Rightarrow> nat list \<Rightarrow> nat list" where
  "increment_coordinate dim_order index start finish =
     (case dim_order of
        increasing_dimension_order \<Rightarrow> increment_first index start finish
      | decreasing_dimension_order \<Rightarrow> rev (increment_first (rev index) (rev start) (rev finish)))"

text \<open>
  What the node reads of its argument \<^verbatim>\<open>arg_\<close>: \<^verbatim>\<open>is_dense()\<close>, \<^verbatim>\<open>size()\<close>
  (the number of tiles along each dimension), \<^verbatim>\<open>order()\<close> and \<^verbatim>\<open>get_shape()\<close>.
\<close>

record arg_tensor =
  arg_is_dense :: bool
  arg_size :: "nat list"
  arg_order :: DimensionOrderType
  arg_get_shape :: Bitset

definition arg_volume :: "arg_tensor \<Rightarrow> nat" where
  "arg_volume arg = prod_list (arg_size arg)"

text \<open>
  The members of \<^verbatim>\<open>PermuteTiledTensor\<close> that the shape depends on: \<^verbatim>\<open>perm_\<close>,
  \<^verbatim>\<open>arg_\<close>, \<^verbatim>\<open>size_\<close> and \<^verbatim>\<open>shape_\<close>. The tiled range, of which only
  \<^verbatim>\<open>includes\<close> is used here, holds the tile ordinals below the volume; the tile
  storage plays no part.
\<close>

record PermuteTiledTensor =
  perm_m :: Permutation
  arg_m :: arg_tensor
  size_m :: "nat list"
  shape_m :: Bitset

definition is_dense :: "PermuteTiledTensor \<Rightarrow> bool" where
  "is_dense t = arg_is_dense (arg_m t)"

definition order :: "PermuteTiledTensor \<Rightarrow> DimensionOrderType" where
  "order t = arg_order (arg_m t)"

definition volume :: "PermuteTiledTensor \<Rightarrow> nat" where
  "volume t = prod_list (size_m t)"

definition trange_includes :: "PermuteTiledTensor \<Rightarrow> nat \<Rightarrow> bool" where
  "trange_includes t i = (i < volume t)"

text \<open>\<^verbatim>\<open>PermuteTiledTensor::is_zero(i)\<close>.\<close>

definition is_zero :: "PermuteTiledTensor \<Rightarrow> nat \<Rightarrow> ta_error + bool" where
  "is_zero t i =
     (if \<not> trange_includes t i then Inl AssertionFailure
      else if is_dense t then Inr True
      else Bitset_test (shape_m t) i)"

text \<open>
  The loop of \<^verbatim>\<open>init_shape_helper::operator()\<close> over the bits \<open>first, \<dots>, last - 1\<close> of
  one block; \<open>index\<close> is stepped together with \<open>first\<close>.
\<close>

function init_shape_helper_loop ::
  "arg_tensor \<Rightarrow> nat list \<Rightarrow> nat \<Rightarrow> nat \<Rightarrow> nat list \<Rightarrow> Bitset \<Rightarrow> ta_error + Bitset" where
  "init_shape_helper_loop arg invp_weight first last' index shape =
     (if first < last' then
        (case Bitset_test (arg_get_shape arg) first of
           Inl e \<Rightarrow> Inl e
         | Inr present \<Rightarrow>
            (case (if present then Bitset_set shape (calc_ordinal index invp_weight) else Inr shape) of
               Inl e \<Rightarrow> Inl e
             | Inr shape' \<Rightarrow>
                 init_shape_helper_loop arg invp_weight (Suc first) last'
                   (increment_coordinate (arg_order arg) index
                      (replicate (length (arg_size arg)) 0) (arg_size arg))
                   shape'))
      else Inr shape)"
  by pat_completeness auto
termination
  by (relation "measure (\<lambda>(arg, w, first, last', _). last' - first)") auto

text \<open>\<^verbatim>\<open>init_shape_helper::operator()(b)\<close>: the coordinate starts at the origin for
  every block.\<close>

definition init_shape_helper ::
  "arg_tensor \<Rightarrow> nat list \<Rightarrow> Bitset \<Rightarrow> nat \<Rightarrow> ta_error + Bitset" where
  "init_shape_helper arg invp_weight shape b =
     (if Bitset_block (arg_get_shape arg) b then
        let index = replicate (length (arg_size arg)) 0;
            first = b * count;
            last' = first + count
        in init_shape_helper_loop arg invp_weight first last' index shape
      else Inr shape)"

text \<open>
  \<^verbatim>\<open>init_shape\<close>: the task queue's \<^verbatim>\<open>for_each\<close> over the blocks
  \<open>0, \<dots>, shape_.num_blocks() - 1\<close>. The tasks only set bits of \<^verbatim>\<open>shape_\<close>, so
  their order does not matter; they run here in increasing order and stop at a failure.
\<close>

fun for_each_block :: "(Bitset \<Rightarrow> nat \<Rightarrow> ta_error + Bitset) \<Rightarrow> nat list \<Rightarrow> Bitset \<Rightarrow> ta_error + Bitset" where
  "for_each_block f [] shape = Inr shape"
| "for_each_block f (b # bs) shape =
     (case f shape b of Inl e \<Rightarrow> Inl e | Inr shape' \<Rightarrow> for_each_block f bs shape')"

definition init_shape :: "PermuteTiledTensor \<Rightarrow> ta_error + PermuteTiledTensor" where
  "init_shape t =
     (let invp_weight = permute_array (perm_inverse (perm_m t)) (calc_weight (order t) (size_m t)) in
      case for_each_block (init_shape_helper (arg_m t) invp_weight)
             [0..<num_blocks (shape_m t)] (shape_m t) of
        Inl e \<Rightarrow> Inl e
      | Inr shape \<Rightarrow> Inr (t\<lparr>shape_m := shape\<rparr>))"

text \<open>
  The constructor \<^verbatim>\<open>PermuteTiledTensor(arg, p)\<close>, up to the shape: the member
  initialisers, then \<^verbatim>\<open>init_shape\<close> when the argument is not dense. Both dimension
  orders run the same code on their own coordinate system.
\<close>

definition permute_size :: "Permutation \<Rightarrow> nat list \<Rightarrow> nat list" where
  "permute_size p s = permute_array p s"

definition PermuteTiledTensor_new :: "arg_tensor \<Rightarrow> Permutation \<Rightarrow> ta_error + PermuteTiledTensor" where
  "PermuteTiledTensor_new arg p =
     (let t = \<lparr>perm_m = p, arg_m = arg, size_m = permute_size p (arg_size arg),
                shape_m = Bitset_new (if arg_is_dense arg then arg_volume arg else 0)\<rparr>
      in if \<not> arg_is_dense arg then init_shape t else Inr t)"

section \<open>Proofs: the unrolled block primitives\<close>

declare binary_vector_op_blocks.simps [simp del]

declare binary_vector_op_rest.simps [simp del]

declare binary_vector_op_to_blocks.simps [simp del]

declare binary_vector_op_to_rest.simps [simp del]

lemma cells_store [simp]: "cells (store b k v) = (cells b)[k := v]"
  by (simp add: store_def)

lemma written_store [simp]: "written (store b k v) = written b @ [k]"
  by (simp add: store_def)

lemma cells_fresh [simp]: "cells (fresh xs) = xs"
  by (simp add: fresh_def)

lemma written_fresh [simp]: "written (fresh xs) = []"
  by (simp add: fresh_def)

lemma offset_0: "offset 0 = TILEDARRAY_LOOP_UNWIND - 1"
  by (simp add: offset_def)

lemma offset_Suc: "Suc N < TILEDARRAY_LOOP_UNWIND \<Longrightarrow> Suc (offset (Suc N)) = offset N"
  by (simp add: offset_def)

lemma offset_less: "offset N < TILEDARRAY_LOOP_UNWIND"
  by (simp add: offset_def TILEDARRAY_LOOP_UNWIND_def)

lemma upt_offset_0: "[offset 0..<TILEDARRAY_LOOP_UNWIND] = [offset 0]"
  by (simp add: offset_def TILEDARRAY_LOOP_UNWIND_def)

lemma upt_offset_Suc:
  "Suc N < TILEDARRAY_LOOP_UNWIND \<Longrightarrow>
     [offset (Suc N)..<TILEDARRAY_LOOP_UNWIND] = offset (Suc N) # [offset N..<TILEDARRAY_LOOP_UNWIND]"
  using offset_Suc [of N] offset_less [of "Suc N"] by (simp add: upt_conv_Cons)

lemma copy_length [simp]:
  "length (cells (VectorOpUnwind_copy N arg a result r)) = length (cells result)"
  by (induction N arbitrary: result) simp_all

lemma copy_written:
  "N < TILEDARRAY_LOOP_UNWIND \<Longrightarrow>
     written (VectorOpUnwind_copy N arg a result r) =
       written result @ map (\<lambda>k. r + k) [offset N..<TILEDARRAY_LOOP_UNWIND]"
proof (induction N arbitrary: result)
  case 0
  show ?case by (simp add: upt_offset_0)
next
  case (Suc N)
  then show ?case by (simp add: upt_offset_Suc)
qed

lemma copy_nth:
  "N < TILEDARRAY_LOOP_UNWIND \<Longrightarrow> r + TILEDARRAY_LOOP_UNWIND \<le> length (cells result) \<Longrightarrow>
     j < length (cells result) \<Longrightarrow>
     cells (VectorOpUnwind_copy N arg a result r) ! j =
       (if r + offset N \<le> j \<and> j < r + TILEDARRAY_LOOP_UNWIND then arg ! (a + (j - r))
        else cells result ! j)"
proof (induction N arbitrary: result)
  case 0
  then show ?case
    using offset_less [of 0] by (auto simp: nth_list_update offset_0)
next
  case (Suc N)
  have "Suc (offset (Suc N)) = offset N" using Suc.prems(1) by (rule offset_Suc)
  with Suc show ?case
    using offset_less [of "Suc N"] by (auto simp: nth_list_update)
qed

lemma offset_VecOpUnwindN [simp]: "offset VecOpUnwindN = 0"
  by (simp add: offset_def VecOpUnwindN_def TILEDARRAY_LOOP_UNWIND_def)

lemma VecOpUnwindN_less: "VecOpUnwindN < TILEDARRAY_LOOP_UNWIND"
  by (simp add: VecOpUnwindN_def TILEDARRAY_LOOP_UNWIND_def)

lemma copy_block:
  assumes "length blk = TILEDARRAY_LOOP_UNWIND" "a + TILEDARRAY_LOOP_UNWIND \<le> length arg"
  shows "cells (VectorOpUnwind_copy VecOpUnwindN arg a (fresh blk) 0) =
           take TILEDARRAY_LOOP_UNWIND (drop a arg)"
  using assms by (intro nth_equalityI) (simp_all add: copy_nth VecOpUnwindN_less)

lemma copy_back:
  assumes "length blk = TILEDARRAY_LOOP_UNWIND" "i + TILEDARRAY_LOOP_UNWIND \<le> length (cells result)"
  shows "cells (VectorOpUnwind_copy VecOpUnwindN blk 0 result i) =
           take i (cells result) @ blk @ drop (i + TILEDARRAY_LOOP_UNWIND) (cells result)"
  using assms by (intro nth_equalityI) (auto simp: copy_nth VecOpUnwindN_less nth_append)

lemma and_not_mask_word: "(n::'a::len word) AND NOT (mask k) = push_bit k (drop_bit k n)"
  by (rule bit_eqI) (auto simp: bit_simps)

lemma index_mask_eq: "index_mask = NOT (mask 3)"
  by (simp add: index_mask_def TILEDARRAY_LOOP_UNWIND_def mask_eq_exp_minus_1)

lemma unat_and_index_mask:
  "unat (n AND index_mask) = unat n - unat n mod TILEDARRAY_LOOP_UNWIND"
proof -
  have le: "unat n div 8 * 8 \<le> unat n" by simp
  have "unat n < 2 ^ 64" using unsigned_less [of n, where 'a = nat] by simp
  with le have lt: "unat n div 8 * 8 < 2 ^ 64" by linarith
  have "unat (n AND index_mask) = unat (push_bit 3 (drop_bit 3 n))"
    by (simp only: index_mask_eq and_not_mask_word)
  also have "\<dots> = take_bit LENGTH(64) (push_bit 3 (drop_bit 3 (unat n)))"
    by (simp only: unsigned_push_bit_eq unat_drop_bit_eq)
  also have "\<dots> = take_bit 64 (unat n div 8 * 8)"
    by (simp add: push_bit_eq_mult drop_bit_eq_div)
  also have "\<dots> = unat n div 8 * 8"
    using lt by (simp add: take_bit_nat_eq_self_iff)
  also have "\<dots> = unat n - unat n mod 8"
    by (simp add: minus_mod_eq_div_mult)
  finally show ?thesis by (simp add: TILEDARRAY_LOOP_UNWIND_def)
qed

lemma binary_length [simp]:
  "length (cells (VectorOpUnwind_binary N left right result op)) = length (cells result)"
  by (induction N arbitrary: result) simp_all

lemma binary_nth:
  "N < TILEDARRAY_LOOP_UNWIND \<Longrightarrow> TILEDARRAY_LOOP_UNWIND \<le> length (cells result) \<Longrightarrow>
     j < length (cells result) \<Longrightarrow>
     cells (VectorOpUnwind_binary N left right result op) ! j =
       (if offset N \<le> j \<and> j < TILEDARRAY_LOOP_UNWIND then op (left ! j) (right ! j)
        else cells result ! j)"
proof (induction N arbitrary: result)
  case 0
  then show ?case
    using offset_less [of 0] by (auto simp: nth_list_update offset_0)
next
  case (Suc N)
  have "Suc (offset (Suc N)) = offset N" using Suc.prems(1) by (rule offset_Suc)
  with Suc show ?case
    using offset_less [of "Suc N"] by (auto simp: nth_list_update)
qed

lemma binary_to_length [simp]:
  "length (cells (VectorOpUnwind_binary_to N arg result op)) = length (cells result)"
  by (induction N arbitrary: result) simp_all

lemma binary_to_nth:
  "N < TILEDARRAY_LOOP_UNWIND \<Longrightarrow> TILEDARRAY_LOOP_UNWIND \<le> length (cells result) \<Longrightarrow>
     j < length (cells result) \<Longrightarrow>
     cells (VectorOpUnwind_binary_to N arg result op) ! j =
       (if offset N \<le> j \<and> j < TILEDARRAY_LOOP_UNWIND then op (cells result ! j) (arg ! j)
        else cells result ! j)"
proof (induction N arbitrary: result)
  case 0
  then show ?case
    using offset_less [of 0] by (auto simp: nth_list_update offset_0)
next
  case (Suc N)
  have "Suc (offset (Suc N)) = offset N" using Suc.prems(1) by (rule offset_Suc)
  with Suc show ?case
    using offset_less [of "Suc N"] by (auto simp: nth_list_update)
qed

lemma binary_block:
  assumes "length cb = TILEDARRAY_LOOP_UNWIND"
  shows "cells (VectorOpUnwind_binary VecOpUnwindN left right (fresh cb) op) =
           map (\<lambda>k. op (left ! k) (right ! k)) [0..<TILEDARRAY_LOOP_UNWIND]"
  using assms by (intro nth_equalityI) (simp_all add: binary_nth VecOpUnwindN_less)

lemma binary_to_block:
  assumes "length (cells blk) = TILEDARRAY_LOOP_UNWIND"
  shows "cells (VectorOpUnwind_binary_to VecOpUnwindN arg blk op) =
           map (\<lambda>k. op (cells blk ! k) (arg ! k)) [0..<TILEDARRAY_LOOP_UNWIND]"
  using assms by (intro nth_equalityI) (simp_all add: binary_to_nth VecOpUnwindN_less)

text \<open>One pass of the block loop of the three-array overload.\<close>

lemma binary_pass_nth:
  assumes "length lb = TILEDARRAY_LOOP_UNWIND" "length rb = TILEDARRAY_LOOP_UNWIND"
    "length cb = TILEDARRAY_LOOP_UNWIND"
    "i + TILEDARRAY_LOOP_UNWIND \<le> length left" "i + TILEDARRAY_LOOP_UNWIND \<le> length right"
    "i + TILEDARRAY_LOOP_UNWIND \<le> length (cells result)" "j < length (cells result)"
  shows "cells (VectorOpUnwind_copy VecOpUnwindN
           (cells (VectorOpUnwind_binary VecOpUnwindN
              (cells (VectorOpUnwind_copy VecOpUnwindN left i (fresh lb) 0))
              (cells (VectorOpUnwind_copy VecOpUnwindN right i (fresh rb) 0)) (fresh cb) op))
           0 result i) ! j =
         (if i \<le> j \<and> j < i + TILEDARRAY_LOOP_UNWIND then op (left ! j) (right ! j)
          else cells result ! j)"
proof (cases "i \<le> j \<and> j < i + TILEDARRAY_LOOP_UNWIND")
  case True
  then have "j - i < TILEDARRAY_LOOP_UNWIND" "i + (j - i) = j" by auto
  with True assms show ?thesis
    by (simp add: copy_nth VecOpUnwindN_less binary_block copy_block)
next
  case False
  with assms show ?thesis
    by (auto simp: copy_nth VecOpUnwindN_less)
qed

lemma upt_shift: "map (\<lambda>k. i + k) [0..<m] = [i..<i + m]"
  by (induction m) simp_all

lemma binary_blocks_correct:
  assumes "length lb = TILEDARRAY_LOOP_UNWIND" "length rb = TILEDARRAY_LOOP_UNWIND"
    "length cb = TILEDARRAY_LOOP_UNWIND"
    "nx \<le> length left" "nx \<le> length right" "nx \<le> length (cells result)"
    "i \<le> nx" "TILEDARRAY_LOOP_UNWIND dvd nx - i"
  shows "fst (binary_vector_op_blocks i nx left right result op lb rb cb) = nx
       \<and> length (cells (snd (binary_vector_op_blocks i nx left right result op lb rb cb))) =
           length (cells result)
       \<and> (\<forall>j < length (cells result).
            cells (snd (binary_vector_op_blocks i nx left right result op lb rb cb)) ! j =
              (if i \<le> j \<and> j < nx then op (left ! j) (right ! j) else cells result ! j))
       \<and> written (snd (binary_vector_op_blocks i nx left right result op lb rb cb)) =
           written result @ [i..<nx]"
  using assms
proof (induction i nx left right result op lb rb cb rule: binary_vector_op_blocks.induct)
  case (1 i nx left right result op lb rb cb)
  show ?case
  proof (cases "i < nx")
    case False
    with "1.prems" show ?thesis
      by (subst (1 2 3 4) binary_vector_op_blocks.simps) auto
  next
    case True
    define result' where "result' = VectorOpUnwind_copy VecOpUnwindN
           (cells (VectorOpUnwind_binary VecOpUnwindN
              (cells (VectorOpUnwind_copy VecOpUnwindN left i (fresh lb) 0))
              (cells (VectorOpUnwind_copy VecOpUnwindN right i (fresh rb) 0)) (fresh cb) op))
           0 result i"
    from True "1.prems"(8) have step: "i + TILEDARRAY_LOOP_UNWIND \<le> nx"
      unfolding TILEDARRAY_LOOP_UNWIND_def by presburger
    have dv: "TILEDARRAY_LOOP_UNWIND dvd nx - (i + TILEDARRAY_LOOP_UNWIND)"
      using "1.prems"(8) step unfolding TILEDARRAY_LOOP_UNWIND_def by presburger
    have len: "length (cells result') = length (cells result)"
      by (simp add: result'_def)
    have unfold: "binary_vector_op_blocks i nx left right result op lb rb cb =
        binary_vector_op_blocks (i + TILEDARRAY_LOOP_UNWIND) nx left right result' op lb rb cb"
      using True by (subst binary_vector_op_blocks.simps) (simp add: result'_def)
    have IH: "fst (binary_vector_op_blocks (i + TILEDARRAY_LOOP_UNWIND) nx left right result' op lb rb cb) = nx
       \<and> length (cells (snd (binary_vector_op_blocks (i + TILEDARRAY_LOOP_UNWIND) nx left right result' op lb rb cb))) =
           length (cells result')
       \<and> (\<forall>j < length (cells result').
            cells (snd (binary_vector_op_blocks (i + TILEDARRAY_LOOP_UNWIND) nx left right result' op lb rb cb)) ! j =
              (if i + TILEDARRAY_LOOP_UNWIND \<le> j \<and> j < nx then op (left ! j) (right ! j) else cells result' ! j))
       \<and> written (snd (binary_vector_op_blocks (i + TILEDARRAY_LOOP_UNWIND) nx left right result' op lb rb cb)) =
           written result' @ [i + TILEDARRAY_LOOP_UNWIND..<nx]"
      using "1.IH" [OF True refl refl refl, of result'] "1.prems" step dv len
      by (simp add: result'_def)
    have nth': "cells result' ! j =
         (if i \<le> j \<and> j < i + TILEDARRAY_LOOP_UNWIND then op (left ! j) (right ! j)
          else cells result ! j)" if "j < length (cells result)" for j
      unfolding result'_def using "1.prems" step that
      by (intro binary_pass_nth) simp_all
    have wr': "written result' = written result @ [i..<i + TILEDARRAY_LOOP_UNWIND]"
      by (simp add: result'_def copy_written VecOpUnwindN_less upt_shift)
    have "[i..<nx] = [i..<i + TILEDARRAY_LOOP_UNWIND] @ [i + TILEDARRAY_LOOP_UNWIND..<nx]"
      using step upt_add_eq_append [of i "i + TILEDARRAY_LOOP_UNWIND" "nx - (i + TILEDARRAY_LOOP_UNWIND)"]
      by simp
    with IH nth' wr' len step show ?thesis
      unfolding unfold by auto
  qed
qed

lemma binary_rest_correct:
  assumes "n \<le> length left" "n \<le> length right" "n \<le> length (cells result)" "i \<le> n"
  shows "length (cells (binary_vector_op_rest i n left right result op)) = length (cells result)
       \<and> (\<forall>j < length (cells result).
            cells (binary_vector_op_rest i n left right result op) ! j =
              (if i \<le> j \<and> j < n then op (left ! j) (right ! j) else cells result ! j))
       \<and> written (binary_vector_op_rest i n left right result op) = written result @ [i..<n]"
  using assms
proof (induction i n left right result op rule: binary_vector_op_rest.induct)
  case (1 i n left right result op)
  show ?case
  proof (cases "i < n")
    case False
    with "1.prems" show ?thesis
      by (subst (1 2 3) binary_vector_op_rest.simps) auto
  next
    case True
    have unfold: "binary_vector_op_rest i n left right result op =
        binary_vector_op_rest (Suc i) n left right (store result i (op (left ! i) (right ! i))) op"
      using True by (subst binary_vector_op_rest.simps) simp
    have upt: "[i..<n] = i # [Suc i..<n]" using True by (simp add: upt_conv_Cons)
    have same: "j = i" if "\<not> Suc i \<le> j" "i \<le> j" for j using that by arith
    from "1.IH" [OF True refl refl refl] "1.prems" True upt show ?thesis
      unfolding unfold by (auto simp: nth_list_update dest: same)
  qed
qed

lemma buffer_eqI:
  "cells a = cells b \<Longrightarrow> written a = written b \<Longrightarrow> (a :: 'a buffer) = b"
  by simp

lemma nx_facts:
  "unat (n AND index_mask) \<le> unat n" "TILEDARRAY_LOOP_UNWIND dvd unat (n AND index_mask)"
  by (simp_all add: unat_and_index_mask TILEDARRAY_LOOP_UNWIND_def dvd_minus_mod)

lemma binary_vector_op_result:
  assumes "unat n \<le> length left" "unat n \<le> length right" "unat n \<le> length (cells result)"
    "length lb = TILEDARRAY_LOOP_UNWIND" "length rb = TILEDARRAY_LOOP_UNWIND"
    "length cb = TILEDARRAY_LOOP_UNWIND"
  shows "cells (binary_vector_op n left right result op lb rb cb) =
           map (\<lambda>i. op (left ! i) (right ! i)) [0..<unat n] @ drop (unat n) (cells result)"
    and "written (binary_vector_op n left right result op lb rb cb) =
           written result @ [0..<unat n]"
proof -
  let ?nx = "unat (n AND index_mask)"
  let ?B = "binary_vector_op_blocks 0 ?nx left right result op lb rb cb"
  let ?R = "binary_vector_op_rest ?nx (unat n) left right (snd ?B) op"
  have le: "?nx \<le> unat n" and dv: "TILEDARRAY_LOOP_UNWIND dvd ?nx - 0"
    using nx_facts [of n] by simp_all
  have B: "fst ?B = ?nx" "length (cells (snd ?B)) = length (cells result)"
    "\<And>j. j < length (cells result) \<Longrightarrow>
        cells (snd ?B) ! j = (if j < ?nx then op (left ! j) (right ! j) else cells result ! j)"
    "written (snd ?B) = written result @ [0..<?nx]"
    using binary_blocks_correct [OF assms(4,5,6) _ _ _ _ dv, of left right result op] assms(1,2,3) le
    by simp_all
  have eq: "binary_vector_op n left right result op lb rb cb = ?R"
    using B(1) by (simp add: binary_vector_op_def Let_def case_prod_unfold)
  have R: "length (cells ?R) = length (cells result)"
    "\<And>j. j < length (cells result) \<Longrightarrow>
        cells ?R ! j = (if ?nx \<le> j \<and> j < unat n then op (left ! j) (right ! j) else cells (snd ?B) ! j)"
    "written ?R = written (snd ?B) @ [?nx..<unat n]"
    using binary_rest_correct [OF assms(1,2) _ le, of "snd ?B" op] assms(3) B(2)
    by simp_all
  show "cells (binary_vector_op n left right result op lb rb cb) =
           map (\<lambda>i. op (left ! i) (right ! i)) [0..<unat n] @ drop (unat n) (cells result)"
    unfolding eq using R(1,2) B(3) assms(3) le
    by (intro nth_equalityI) (auto simp: nth_append)
  have "[0..<unat n] = [0..<?nx] @ [?nx..<unat n]"
    using le upt_add_eq_append [of 0 ?nx "unat n - ?nx"] by simp
  then show "written (binary_vector_op n left right result op lb rb cb) =
           written result @ [0..<unat n]"
    unfolding eq using R(3) B(4) by simp
qed

lemma binary_rest_result:
  assumes "n \<le> length left" "n \<le> length right" "n \<le> length (cells result)"
  shows "cells (binary_vector_op_rest 0 n left right result op) =
           map (\<lambda>i. op (left ! i) (right ! i)) [0..<n] @ drop n (cells result)"
    and "written (binary_vector_op_rest 0 n left right result op) = written result @ [0..<n]"
proof -
  have R: "length (cells (binary_vector_op_rest 0 n left right result op)) = length (cells result)"
    "\<And>j. j < length (cells result) \<Longrightarrow>
        cells (binary_vector_op_rest 0 n left right result op) ! j =
          (if j < n then op (left ! j) (right ! j) else cells result ! j)"
    "written (binary_vector_op_rest 0 n left right result op) = written result @ [0..<n]"
    using binary_rest_correct [OF assms, of 0 op] by simp_all
  show "cells (binary_vector_op_rest 0 n left right result op) =
           map (\<lambda>i. op (left ! i) (right ! i)) [0..<n] @ drop n (cells result)"
    using R(1,2) assms(3) by (intro nth_equalityI) (auto simp: nth_append)
  show "written (binary_vector_op_rest 0 n left right result op) = written result @ [0..<n]"
    by (rule R(3))
qed

text \<open>One pass of the block loop of the in-place overload.\<close>

lemma binary_to_pass_nth:
  assumes "length ab = TILEDARRAY_LOOP_UNWIND" "length cb = TILEDARRAY_LOOP_UNWIND"
    "i + TILEDARRAY_LOOP_UNWIND \<le> length arg"
    "i + TILEDARRAY_LOOP_UNWIND \<le> length (cells result)" "j < length (cells result)"
  shows "cells (VectorOpUnwind_copy VecOpUnwindN
           (cells (VectorOpUnwind_binary_to VecOpUnwindN
              (cells (VectorOpUnwind_copy VecOpUnwindN arg i (fresh ab) 0))
              (VectorOpUnwind_copy VecOpUnwindN (cells result) i (fresh cb) 0) op))
           0 result i) ! j =
         (if i \<le> j \<and> j < i + TILEDARRAY_LOOP_UNWIND then op (cells result ! j) (arg ! j)
          else cells result ! j)"
proof (cases "i \<le> j \<and> j < i + TILEDARRAY_LOOP_UNWIND")
  case True
  then have "j - i < TILEDARRAY_LOOP_UNWIND" "i + (j - i) = j" by auto
  with True assms show ?thesis
    by (simp add: copy_nth VecOpUnwindN_less binary_to_block copy_block)
next
  case False
  with assms show ?thesis
    by (auto simp: copy_nth VecOpUnwindN_less)
qed

lemma binary_to_blocks_correct:
  assumes "length ab = TILEDARRAY_LOOP_UNWIND" "length cb = TILEDARRAY_LOOP_UNWIND"
    "nx \<le> length arg" "nx \<le> length (cells result)"
    "i \<le> nx" "TILEDARRAY_LOOP_UNWIND dvd nx - i"
  shows "fst (binary_vector_op_to_blocks i nx arg result op ab cb) = nx
       \<and> length (cells (snd (binary_vector_op_to_blocks i nx arg result op ab cb))) =
           length (cells result)
       \<and> (\<forall>j < length (cells result).
            cells (snd (binary_vector_op_to_blocks i nx arg result op ab cb)) ! j =
              (if i \<le> j \<and> j < nx then op (cells result ! j) (arg ! j) else cells result ! j))
       \<and> written (snd (binary_vector_op_to_blocks i nx arg result op ab cb)) =
           written result @ [i..<nx]"
  using assms
proof (induction i nx arg result op ab cb rule: binary_vector_op_to_blocks.induct)
  case (1 i nx arg result op ab cb)
  show ?case
  proof (cases "i < nx")
    case False
    with "1.prems" show ?thesis
      by (subst (1 2 3 4) binary_vector_op_to_blocks.simps) auto
  next
    case True
    define result' where "result' = VectorOpUnwind_copy VecOpUnwindN
           (cells (VectorOpUnwind_binary_to VecOpUnwindN
              (cells (VectorOpUnwind_copy VecOpUnwindN arg i (fresh ab) 0))
              (VectorOpUnwind_copy VecOpUnwindN (cells result) i (fresh cb) 0) op))
           0 result i"
    from True "1.prems"(6) have step: "i + TILEDARRAY_LOOP_UNWIND \<le> nx"
      unfolding TILEDARRAY_LOOP_UNWIND_def by presburger
    have dv: "TILEDARRAY_LOOP_UNWIND dvd nx - (i + TILEDARRAY_LOOP_UNWIND)"
      using "1.prems"(6) step unfolding TILEDARRAY_LOOP_UNWIND_def by presburger
    have len: "length (cells result') = length (cells result)"
      by (simp add: result'_def)
    have unfold: "binary_vector_op_to_blocks i nx arg result op ab cb =
        binary_vector_op_to_blocks (i + TILEDARRAY_LOOP_UNWIND) nx arg result' op ab cb"
      using True by (subst binary_vector_op_to_blocks.simps) (simp add: result'_def)
    have IH: "fst (binary_vector_op_to_blocks (i + TILEDARRAY_LOOP_UNWIND) nx arg result' op ab cb) = nx
       \<and> length (cells (snd (binary_vector_op_to_blocks (i + TILEDARRAY_LOOP_UNWIND) nx arg result' op ab cb))) =
           length (cells result')
       \<and> (\<forall>j < length (cells result').
            cells (snd (binary_vector_op_to_blocks (i + TILEDARRAY_LOOP_UNWIND) nx arg result' op ab cb)) ! j =
              (if i + TILEDARRAY_LOOP_UNWIND \<le> j \<and> j < nx then op (cells result' ! j) (arg ! j) else cells result' ! j))
       \<and> written (snd (binary_vector_op_to_blocks (i + TILEDARRAY_LOOP_UNWIND) nx arg result' op ab cb)) =
           written result' @ [i + TILEDARRAY_LOOP_UNWIND..<nx]"
      using "1.IH" [OF True refl refl refl, of result'] "1.prems" step dv len
      by (simp add: result'_def)
    have nth': "cells result' ! j =
         (if i \<le> j \<and> j < i + TILEDARRAY_LOOP_UNWIND then op (cells result ! j) (arg ! j)
          else cells result ! j)" if "j < length (cells result)" for j
      unfolding result'_def using "1.prems" step that
      by (intro binary_to_pass_nth) simp_all
    have wr': "written result' = written result @ [i..<i + TILEDARRAY_LOOP_UNWIND]"
      by (simp add: result'_def copy_written VecOpUnwindN_less upt_shift)
    have "[i..<nx] = [i..<i + TILEDARRAY_LOOP_UNWIND] @ [i + TILEDARRAY_LOOP_UNWIND..<nx]"
      using step upt_add_eq_append [of i "i + TILEDARRAY_LOOP_UNWIND" "nx - (i + TILEDARRAY_LOOP_UNWIND)"]
      by simp
    with IH nth' wr' len step show ?thesis
      unfolding unfold by auto
  qed
qed

lemma binary_to_rest_correct:
  assumes "n \<le> length arg" "n \<le> length (cells result)" "i \<le> n"
  shows "length (cells (binary_vector_op_to_rest i n arg result op)) = length (cells result)
       \<and> (\<forall>j < length (cells result).
            cells (binary_vector_op_to_rest i n arg result op) ! j =
              (if i \<le> j \<and> j < n then op (cells result ! j) (arg ! j) else cells result ! j))
       \<and> written (binary_vector_op_to_rest i n arg result op) = written result @ [i..<n]"
  using assms
proof (induction i n arg result op rule: binary_vector_op_to_rest.induct)
  case (1 i n arg result op)
  show ?case
  proof (cases "i < n")
    case False
    with "1.prems" show ?thesis
      by (subst (1 2 3) binary_vector_op_to_rest.simps) auto
  next
    case True
    have unfold: "binary_vector_op_to_rest i n arg result op =
        binary_vector_op_to_rest (Suc i) n arg (store result i (op (cells result ! i) (arg ! i))) op"
      using True by (subst binary_vector_op_to_rest.simps) simp
    have upt: "[i..<n] = i # [Suc i..<n]" using True by (simp add: upt_conv_Cons)
    have same: "j = i" if "\<not> Suc i \<le> j" "i \<le> j" for j using that by arith
    from "1.IH" [OF True refl refl] "1.prems" True upt show ?thesis
      unfolding unfold by (auto simp: nth_list_update dest: same)
  qed
qed

lemma binary_vector_op_to_result:
  assumes "unat n \<le> length arg" "unat n \<le> length (cells result)"
    "length ab = TILEDARRAY_LOOP_UNWIND" "length cb = TILEDARRAY_LOOP_UNWIND"
  shows "cells (binary_vector_op_to n arg result op ab cb) =
           map (\<lambda>i. op (cells result ! i) (arg ! i)) [0..<unat n] @ drop (unat n) (cells result)"
    and "written (binary_vector_op_to n arg result op ab cb) = written result @ [0..<unat n]"
proof -
  let ?nx = "unat (n AND index_mask)"
  let ?B = "binary_vector_op_to_blocks 0 ?nx arg result op ab cb"
  let ?R = "binary_vector_op_to_rest ?nx (unat n) arg (snd ?B) op"
  have le: "?nx \<le> unat n" and dv: "TILEDARRAY_LOOP_UNWIND dvd ?nx - 0"
    using nx_facts [of n] by simp_all
  have B: "fst ?B = ?nx" "length (cells (snd ?B)) = length (cells result)"
    "\<And>j. j < length (cells result) \<Longrightarrow>
        cells (snd ?B) ! j = (if j < ?nx then op (cells result ! j) (arg ! j) else cells result ! j)"
    "written (snd ?B) = written result @ [0..<?nx]"
    using binary_to_blocks_correct [OF assms(3,4) _ _ _ dv, of arg result op] assms(1,2) le
    by simp_all
  have eq: "binary_vector_op_to n arg result op ab cb = ?R"
    using B(1) by (simp add: binary_vector_op_to_def Let_def case_prod_unfold)
  have R: "length (cells ?R) = length (cells result)"
    "\<And>j. j < length (cells result) \<Longrightarrow>
        cells ?R ! j = (if ?nx \<le> j \<and> j < unat n then op (cells (snd ?B) ! j) (arg ! j) else cells (snd ?B) ! j)"
    "written ?R = written (snd ?B) @ [?nx..<unat n]"
    using binary_to_rest_correct [OF assms(1) _ le, of "snd ?B" op] assms(2) B(2)
    by simp_all
  show "cells (binary_vector_op_to n arg result op ab cb) =
           map (\<lambda>i. op (cells result ! i) (arg ! i)) [0..<unat n] @ drop (unat n) (cells result)"
    unfolding eq using R(1,2) B(3) assms(2) le
    by (intro nth_equalityI) (auto simp: nth_append)
  have "[0..<unat n] = [0..<?nx] @ [?nx..<unat n]"
    using le upt_add_eq_append [of 0 ?nx "unat n - ?nx"] by simp
  then show "written (binary_vector_op_to n arg result op ab cb) = written result @ [0..<unat n]"
    unfolding eq using R(3) B(4) by simp
qed

lemma binary_to_rest_result:
  assumes "n \<le> length arg" "n \<le> length (cells result)"
  shows "cells (binary_vector_op_to_rest 0 n arg result op) =
           map (\<lambda>i. op (cells result ! i) (arg ! i)) [0..<n] @ drop n (cells result)"
    and "written (binary_vector_op_to_rest 0 n arg result op) = written result @ [0..<n]"
proof -
  have R: "length (cells (binary_vector_op_to_rest 0 n arg result op)) = length (cells result)"
    "\<And>j. j < length (cells result) \<Longrightarrow>
        cells (binary_vector_op_to_rest 0 n arg result op) ! j =
          (if j < n then op (cells result ! j) (arg ! j) else cells result ! j)"
    "written (binary_vector_op_to_rest 0 n arg result op) = written result @ [0..<n]"
    using binary_to_rest_correct [OF assms, of 0 op] by simp_all
  show "cells (binary_vector_op_to_rest 0 n arg result op) =
           map (\<lambda>i. op (cells result ! i) (arg ! i)) [0..<n] @ drop n (cells result)"
    using R(1,2) assms(2) by (intro nth_equalityI) (auto simp: nth_append)
  show "written (binary_vector_op_to_rest 0 n arg result op) = written result @ [0..<n]"
    by (rule R(3))
qed

section \<open>The blocked binary kernel against the element-by-element loop\<close>

text \<open>
  Claim C9. For arrays that hold at least \<open>n\<close> elements, \<open>binary_vector_op(n, left, right,
  result, op)\<close> leaves \<open>op(left[i], right[i])\<close> in \<open>result[i]\<close> for every \<open>i < n\<close>,
  leaves the rest of \<open>result\<close> as it was, and stores to the indices \<open>0, 1, \<dots>, n - 1\<close> in
  this order, once each: the unrolled blocks and the remainder loop together do what the
  remainder loop alone does when started at index 0. The in-place overload likewise leaves
  \<open>op(result[i], arg[i])\<close> in \<open>result[i]\<close>, one application and one store per index. Nothing
  depends on what the uninitialised block arrays held.
\<close>

theorem binary_vector_op_equals_naive_loop:
  assumes "unat n \<le> length left" "unat n \<le> length right" "unat n \<le> length (cells result)"
    and "unat n \<le> length arg" "unat n \<le> length (cells acc)"
    and "length lb = TILEDARRAY_LOOP_UNWIND" "length rb = TILEDARRAY_LOOP_UNWIND"
      "length cb = TILEDARRAY_LOOP_UNWIND" "length ab = TILEDARRAY_LOOP_UNWIND"
      "length db = TILEDARRAY_LOOP_UNWIND"
  shows "cells (binary_vector_op n left right result op lb rb cb) =
           map (\<lambda>i. op (left ! i) (right ! i)) [0..<unat n] @ drop (unat n) (cells result)
       \<and> written (binary_vector_op n left right result op lb rb cb) =
           written result @ [0..<unat n]
       \<and> binary_vector_op n left right result op lb rb cb =
           binary_vector_op_rest 0 (unat n) left right result op
       \<and> cells (binary_vector_op_to n arg acc op' ab db) =
           map (\<lambda>i. op' (cells acc ! i) (arg ! i)) [0..<unat n] @ drop (unat n) (cells acc)
       \<and> written (binary_vector_op_to n arg acc op' ab db) = written acc @ [0..<unat n]
       \<and> binary_vector_op_to n arg acc op' ab db =
           binary_vector_op_to_rest 0 (unat n) arg acc op'"
proof (intro conjI)
  show c3: "cells (binary_vector_op n left right result op lb rb cb) =
           map (\<lambda>i. op (left ! i) (right ! i)) [0..<unat n] @ drop (unat n) (cells result)"
    using assms by (intro binary_vector_op_result(1))
  show w3: "written (binary_vector_op n left right result op lb rb cb) =
           written result @ [0..<unat n]"
    using assms by (intro binary_vector_op_result(2))
  show "binary_vector_op n left right result op lb rb cb =
           binary_vector_op_rest 0 (unat n) left right result op"
    using c3 w3 binary_rest_result [OF assms(1,2,3), of op] by (intro buffer_eqI) simp_all
  show c2: "cells (binary_vector_op_to n arg acc op' ab db) =
           map (\<lambda>i. op' (cells acc ! i) (arg ! i)) [0..<unat n] @ drop (unat n) (cells acc)"
    using assms by (intro binary_vector_op_to_result(1))
  show w2: "written (binary_vector_op_to n arg acc op' ab db) = written acc @ [0..<unat n]"
    using assms by (intro binary_vector_op_to_result(2))
  show "binary_vector_op_to n arg acc op' ab db =
           binary_vector_op_to_rest 0 (unat n) arg acc op'"
    using c2 w2 binary_to_rest_result [OF assms(4,5), of op'] by (intro buffer_eqI) simp_all
qed

theorem binary_vector_op_equals_naive_loop_witness:
  "cells (binary_vector_op 10 [1, 2, 3, 4, 5, 6, 7, 8, 9, 10 :: int]
            [10, 20, 30, 40, 50, 60, 70, 80, 90, 100] (fresh (replicate 12 0)) (+)
            (replicate 8 0) (replicate 8 0) (replicate 8 0)) =
     [11, 22, 33, 44, 55, 66, 77, 88, 99, 110, 0, 0]
   \<and> written (binary_vector_op 10 [1, 2, 3, 4, 5, 6, 7, 8, 9, 10 :: int]
            [10, 20, 30, 40, 50, 60, 70, 80, 90, 100] (fresh (replicate 12 0)) (+)
            (replicate 8 0) (replicate 8 0) (replicate 8 0)) =
     [0, 1, 2, 3, 4, 5, 6, 7, 8, 9]
   \<and> cells (binary_vector_op_to 10 [1, 2, 3, 4, 5, 6, 7, 8, 9, 10 :: int]
            (fresh [10, 20, 30, 40, 50, 60, 70, 80, 90, 100, 110 :: int])
            (\<lambda>r a. 2 * r + a) (replicate 8 0) (replicate 8 0)) =
     [21, 42, 63, 84, 105, 126, 147, 168, 189, 210, 110]
   \<and> written (binary_vector_op_to 10 [1, 2, 3, 4, 5, 6, 7, 8, 9, 10 :: int]
            (fresh [10, 20, 30, 40, 50, 60, 70, 80, 90, 100, 110 :: int])
            (\<lambda>r a. 2 * r + a) (replicate 8 0) (replicate 8 0)) =
     [0, 1, 2, 3, 4, 5, 6, 7, 8, 9]"
proof -
  note T = binary_vector_op_equals_naive_loop [of 10 "[1, 2, 3, 4, 5, 6, 7, 8, 9, 10 :: int]"
      "[10, 20, 30, 40, 50, 60, 70, 80, 90, 100 :: int]" "fresh (replicate 12 (0::int))"
      "[1, 2, 3, 4, 5, 6, 7, 8, 9, 10 :: int]"
      "fresh [10, 20, 30, 40, 50, 60, 70, 80, 90, 100, 110 :: int]"
      "replicate 8 (0::int)" "replicate 8 (0::int)" "replicate 8 (0::int)"
      "replicate 8 (0::int)" "replicate 8 (0::int)" "(+)" "\<lambda>r a. 2 * r + a"]
  have upt10: "[0..<10] = [0, 1, 2, 3, 4, 5, 6, 7, 8, 9 :: nat]"
    by code_simp
  have rep: "replicate 2 (0::int) = [0, 0]" "replicate 8 (0::int) = [0, 0, 0, 0, 0, 0, 0, 0]"
    "replicate 12 (0::int) = [0, 0, 0, 0, 0, 0, 0, 0, 0, 0, 0, 0]"
    by code_simp+
  show ?thesis
    using T [THEN conjunct1] T [THEN conjunct2, THEN conjunct1]
      T [THEN conjunct2, THEN conjunct2, THEN conjunct2, THEN conjunct1]
      T [THEN conjunct2, THEN conjunct2, THEN conjunct2, THEN conjunct2, THEN conjunct1]
    by (simp add: TILEDARRAY_LOOP_UNWIND_def upt10 rep)
qed

section \<open>Proofs: tile boundaries from labels\<close>

declare make_trange1_loop.simps [simp del]

lemma make_trange1_loop_run:
  assumes "0 < i" "i \<le> last'" "current = labels ! (i - 1)"
  shows "make_trange1_loop labels i last' current tiles =
           (last', tiles @ filter (\<lambda>k. labels ! k \<noteq> labels ! (k - 1)) [i..<last'])"
  using assms
proof (induction labels i last' current tiles rule: make_trange1_loop.induct)
  case (1 labels first last' current tiles)
  show ?case
  proof (cases "first < last'")
    case False
    with "1.prems" show ?thesis
      by (subst make_trange1_loop.simps) simp
  next
    case True
    have upt: "[first..<last'] = first # [Suc first..<last']"
      using True by (simp add: upt_conv_Cons)
    show ?thesis
    proof (cases "labels ! first \<noteq> current")
      case True': True
      from "1.IH"(1) [OF True True'] True "1.prems" True'
      show ?thesis
        by (subst make_trange1_loop.simps) (simp add: upt)
    next
      case False
      from "1.IH"(2) [OF True False] True "1.prems" False
      show ?thesis
        by (subst make_trange1_loop.simps) (simp add: upt)
    qed
  qed
qed

lemma make_trange1_boundaries:
  assumes "first < last'" "last' \<le> length labels"
  shows "make_trange1 labels first last' =
           Some (TiledRange1 (first # filter (\<lambda>k. labels ! k \<noteq> labels ! (k - 1)) [Suc first..<last'] @ [last']))"
proof -
  have "make_trange1_loop labels first last' (labels ! first) [first] =
          make_trange1_loop labels (Suc first) last' (labels ! first) [first]"
    using assms by (subst make_trange1_loop.simps) simp
  also have "\<dots> = (last', [first] @ filter (\<lambda>k. labels ! k \<noteq> labels ! (k - 1)) [Suc first..<last'])"
    using assms by (intro make_trange1_loop_run) simp_all
  finally show ?thesis
    using assms by (simp add: make_trange1_def)
qed

lemma nothing_between_neighbours:
  assumes "sorted_wrt (<) (xs :: nat list)" "Suc t < length xs" "x \<in> set xs"
    "xs ! t < x" "x < xs ! Suc t"
  shows False
proof -
  from assms(3) obtain j where j: "j < length xs" "xs ! j = x"
    by (auto simp: in_set_conv_nth)
  show False
  proof (cases "j \<le> t")
    case True
    then have "xs ! j \<le> xs ! t"
      using assms(1,2) sorted_wrt_nth_less [of "(<)" xs j t] by (cases "j = t") auto
    with j assms(4) show False by simp
  next
    case False
    then have "xs ! Suc t \<le> xs ! j"
      using assms(1) j(1) sorted_wrt_nth_less [of "(<)" xs "Suc t" j] by (cases "j = Suc t") auto
    with j assms(5) show False by simp
  qed
qed

lemma boundaries_sorted:
  assumes "first < last'"
  shows "sorted_wrt (<) (first # filter P [Suc first..<last'] @ [last'])"
  using assms by (auto simp: sorted_wrt_append sorted_wrt_filter)

lemma run_between_boundaries:
  fixes labels :: "'a list"
  defines "change \<equiv> \<lambda>k. labels ! k \<noteq> labels ! (k - 1)"
  assumes bs: "bs = first # filter change [Suc first..<last'] @ [last']"
    and "first < last'" "Suc t < length bs" "bs ! t \<le> i" "i < bs ! Suc t"
  shows "labels ! i = labels ! (bs ! t)"
proof -
  have sorted: "sorted_wrt (<) bs"
    unfolding bs using assms(3) by (rule boundaries_sorted)
  have mem: "k \<in> set bs" if "first < k" "k < last'" "change k" for k
    using that by (simp add: bs)
  have lo: "first \<le> bs ! t"
  proof (cases t)
    case 0 then show ?thesis by (simp add: bs)
  next
    case (Suc t')
    have "bs ! 0 < bs ! t"
      using sorted_wrt_nth_less [OF sorted, of 0 t] assms(4) Suc by simp
    then show ?thesis by (simp add: bs)
  qed
  have hi: "bs ! Suc t \<le> last'"
  proof -
    have "bs ! Suc t \<in> set bs" using assms(4) by simp
    then show ?thesis using assms(3) by (auto simp: bs)
  qed
  have "bs ! t + d < bs ! Suc t \<Longrightarrow> labels ! (bs ! t + d) = labels ! (bs ! t)" for d
  proof (induction d)
    case 0
    show ?case by simp
  next
    case (Suc d)
    let ?k = "bs ! t + Suc d"
    have "\<not> change ?k"
    proof
      assume "change ?k"
      with lo hi Suc.prems have "?k \<in> set bs" by (intro mem) simp_all
      with sorted assms(4) Suc.prems show False
        by (intro nothing_between_neighbours [of bs t ?k]) simp_all
    qed
    with Suc show ?case by (simp add: change_def)
  qed
  from this [of "i - bs ! t"] assms(5,6) show ?thesis by simp
qed

text \<open>
  Claim C4. For a non-empty sub-range \<open>[first, last)\<close> of the label sequence,
  \<open>make_trange1\<close> returns a tiling whose boundary list begins at \<open>first\<close>, ends at \<open>last\<close>
  and has an interior boundary exactly at the positions \<open>k\<close> inside the sub-range whose label
  differs from the running label, which at position \<open>k\<close> is the label at \<open>k - 1\<close>. The list is
  strictly increasing, the labels within one tile are all equal, and the label changes from
  each tile to the next: a tile is a maximal run of equal labels.
\<close>

theorem make_trange1_tiles_are_label_runs:
  assumes "first < last'" "last' \<le> length labels"
  shows "\<exists>bs. make_trange1 labels first last' = Some (TiledRange1 bs)
     \<and> hd bs = first \<and> last bs = last'
     \<and> (\<forall>k. k \<in> set bs \<longleftrightarrow>
          k = first \<or> k = last' \<or> (first < k \<and> k < last' \<and> labels ! k \<noteq> labels ! (k - 1)))
     \<and> sorted_wrt (<) bs
     \<and> (\<forall>t i. Suc t < length bs \<and> bs ! t \<le> i \<and> i < bs ! Suc t \<longrightarrow> labels ! i = labels ! (bs ! t))
     \<and> (\<forall>t. Suc (Suc t) < length bs \<longrightarrow> labels ! (bs ! Suc t) \<noteq> labels ! (bs ! t))"
proof -
  define change where "change = (\<lambda>k. labels ! k \<noteq> labels ! (k - 1))"
  define bs where "bs = first # filter change [Suc first..<last'] @ [last']"
  have made: "make_trange1 labels first last' = Some (TiledRange1 bs)"
    unfolding bs_def change_def using assms by (rule make_trange1_boundaries)
  have ends: "hd bs = first" "last bs = last'"
    by (simp_all add: bs_def)
  have members: "k \<in> set bs \<longleftrightarrow>
          k = first \<or> k = last' \<or> (first < k \<and> k < last' \<and> labels ! k \<noteq> labels ! (k - 1))" for k
    by (auto simp: bs_def change_def)
  have sorted: "sorted_wrt (<) bs"
    unfolding bs_def using assms(1) by (rule boundaries_sorted)
  have run: "labels ! i = labels ! (bs ! t)"
    if "Suc t < length bs" "bs ! t \<le> i" "i < bs ! Suc t" for t i
    using bs_def [unfolded change_def] assms(1) that by (rule run_between_boundaries)
  have maximal: "labels ! (bs ! Suc t) \<noteq> labels ! (bs ! t)" if "Suc (Suc t) < length bs" for t
  proof -
    let ?b = "bs ! Suc t"
    have t: "t < length (filter change [Suc first..<last'])"
      using that by (simp add: bs_def)
    then have "?b = filter change [Suc first..<last'] ! t"
      by (simp add: bs_def nth_append)
    with t have "?b \<in> set (filter change [Suc first..<last'])"
      by (metis nth_mem)
    then have b: "change ?b" "first < ?b" by auto
    have "bs ! t < ?b"
      using sorted_wrt_nth_less [OF sorted, of t "Suc t"] that by simp
    then have "labels ! (?b - 1) = labels ! (bs ! t)"
      using that by (intro run) simp_all
    with b(1) show ?thesis by (simp add: change_def)
  qed
  from made ends members sorted run maximal show ?thesis by blast
qed

theorem make_trange1_tiles_are_label_runs_witness:
  "make_trange1 [7, 7, 3, 3, 3, 5 :: nat] 1 6 = Some (TiledRange1 [1, 2, 5, 6])
   \<and> sorted_wrt (<) [1, 2, 5, 6 :: nat]
   \<and> [7, 7, 3, 3, 3, 5 :: nat] ! ([1, 2, 5, 6] ! 1) \<noteq> [7, 7, 3, 3, 3, 5] ! ([1, 2, 5, 6] ! 0)"
proof -
  have val: "make_trange1 [7, 7, 3, 3, 3, 5 :: nat] 1 6 = Some (TiledRange1 [1, 2, 5, 6])"
    by code_simp
  from make_trange1_tiles_are_label_runs [of 1 6 "[7, 7, 3, 3, 3, 5 :: nat]"]
  obtain bs where bs: "make_trange1 [7, 7, 3, 3, 3, 5 :: nat] 1 6 = Some (TiledRange1 bs)"
    and sorted: "sorted_wrt (<) bs"
    and maximal: "\<forall>t. Suc (Suc t) < length bs \<longrightarrow>
          [7, 7, 3, 3, 3, 5 :: nat] ! (bs ! Suc t) \<noteq> [7, 7, 3, 3, 3, 5] ! (bs ! t)"
    by auto
  from bs val have eq: "bs = [1, 2, 5, 6]" by simp
  from maximal [rule_format, of 0] sorted val show ?thesis
    unfolding eq by simp
qed

section \<open>Element lookup on the boundaries 0, 2, 5, 7\<close>

text \<open>The tile that the lookup returns covers the element.\<close>

lemma element_to_tile_covers:
  assumes "element_to_tile tr e = Inr t"
  shows "Suc t < length (boundaries tr) \<and> boundaries tr ! t \<le> e \<and> e < boundaries tr ! Suc t"
proof -
  let ?bs = "boundaries tr"
  let ?tw = "takeWhile (\<lambda>b. b \<le> e) ?bs"
  from assms have ne: "?bs \<noteq> []" and lo: "hd ?bs \<le> e" and hi: "e < last ?bs"
    and t: "t = length ?tw - 1"
    by (auto simp: element_to_tile_def Let_def split: if_splits)
  from ne lo have "?tw \<noteq> []"
    by (cases ?bs) auto
  then have pos: "0 < length ?tw" by simp
  have "?tw \<noteq> ?bs"
  proof
    assume eq: "?tw = ?bs"
    then have "\<forall>x \<in> set ?bs. x \<le> e" by (simp add: takeWhile_eq_all_conv)
    with ne have "last ?bs \<le> e" by simp
    with hi show False by simp
  qed
  then have short: "length ?tw < length ?bs"
    using length_takeWhile_le [of "\<lambda>b. b \<le> e" ?bs] takeWhile_eq_take [of "\<lambda>b. b \<le> e" ?bs]
    by (cases "length ?tw = length ?bs") auto
  have "\<not> ?bs ! length ?tw \<le> e"
    using short by (rule nth_length_takeWhile)
  moreover have "?bs ! t \<le> e"
  proof -
    have "t < length ?tw" using pos t by simp
    then have "?tw ! t \<in> set ?tw" by simp
    then have "?tw ! t \<le> e" by (rule set_takeWhileD [THEN conjunct2])
    moreover have "?tw ! t = ?bs ! t"
      using \<open>t < length ?tw\<close> by (rule takeWhile_nth)
    ultimately show ?thesis by simp
  qed
  ultimately show ?thesis using pos short t by simp
qed

text \<open>
  Claim C8. On the tiling with boundaries \<open>[0, 2, 5, 7]\<close>, \<open>element_to_tile(3)\<close> is tile 1,
  the tile that covers \<open>[2, 5)\<close>, and \<open>element_to_tile\<close> of 7, or of any element index past
  the covered span, fails with \<open>IndexOutOfRange\<close>. Element indices are unsigned, so no index
  lies below this span.
\<close>

theorem element_to_tile_example:
  "element_to_tile (TiledRange1 [0, 2, 5, 7]) 3 = Inr 1
   \<and> element_to_tile (TiledRange1 [0, 2, 5, 7]) 7 = Inl IndexOutOfRange
   \<and> (\<forall>e. 7 \<le> e \<longrightarrow> element_to_tile (TiledRange1 [0, 2, 5, 7]) e = Inl IndexOutOfRange)"
  by (simp add: element_to_tile_def)

theorem element_to_tile_example_witness:
  "element_to_tile (TiledRange1 [0, 2, 5, 7]) 9 = Inl IndexOutOfRange"
  using element_to_tile_example by simp

section \<open>Scatter and gather of one block\<close>

lemma scatter_length [simp]:
  "length (cells (VectorOpUnwind_scatter N arg result r stride)) = length (cells result)"
  by (induction N arbitrary: result r) simp_all

lemma scatter_below:
  "j < r \<Longrightarrow> cells (VectorOpUnwind_scatter N arg result r stride) ! j = cells result ! j"
  by (induction N arbitrary: result r) simp_all

lemma scatter_nth:
  "N < TILEDARRAY_LOOP_UNWIND \<Longrightarrow> 0 < stride \<Longrightarrow> r + N * stride < length (cells result) \<Longrightarrow>
     m \<le> N \<Longrightarrow>
     cells (VectorOpUnwind_scatter N arg result r stride) ! (r + m * stride) = arg ! (offset N + m)"
proof (induction N arbitrary: result r m)
  case 0
  then show ?case by simp
next
  case (Suc N)
  have off: "Suc (offset (Suc N)) = offset N" using Suc.prems(1) by (rule offset_Suc)
  show ?case
  proof (cases m)
    case 0
    with Suc.prems show ?thesis by (simp add: scatter_below)
  next
    case (Suc m')
    have "cells (VectorOpUnwind_scatter N arg (store result r (arg ! offset (Suc N))) (r + stride) stride)
            ! (r + stride + m' * stride) = arg ! (offset N + m')"
      using Suc.prems Suc by (intro Suc.IH) (simp_all add: add.assoc)
    with Suc off [symmetric] show ?thesis by (simp add: add.assoc add.commute)
  qed
qed

lemma scatter_block:
  assumes "0 < stride" "r + (TILEDARRAY_LOOP_UNWIND - 1) * stride < length (cells result)"
    "k < TILEDARRAY_LOOP_UNWIND"
  shows "cells (VectorOpUnwind_scatter VecOpUnwindN arg result r stride) ! (r + k * stride) = arg ! k"
  using scatter_nth [of VecOpUnwindN stride r result k arg] assms
  by (simp add: VecOpUnwindN_less) (simp add: VecOpUnwindN_def)

lemma gather_length [simp]:
  "length (cells (VectorOpUnwind_gather N arg a result stride)) = length (cells result)"
  by (induction N arbitrary: result a) simp_all

lemma gather_nth:
  "N < TILEDARRAY_LOOP_UNWIND \<Longrightarrow> TILEDARRAY_LOOP_UNWIND \<le> length (cells result) \<Longrightarrow>
     j < length (cells result) \<Longrightarrow>
     cells (VectorOpUnwind_gather N arg a result stride) ! j =
       (if j = 0 then arg ! (a + N * stride + offset 0)
        else if offset N \<le> j \<and> j < offset 0 then arg ! (a + (j - offset N) * stride)
        else cells result ! j)"
proof (induction N arbitrary: result a)
  case 0
  then show ?case by (auto simp: nth_list_update)
next
  case (Suc N)
  have off: "Suc (offset (Suc N)) = offset N" using Suc.prems(1) by (rule offset_Suc)
  have lt: "offset (Suc N) < offset 0"
    using Suc.prems(1) by (simp add: offset_def)
  have "cells (VectorOpUnwind_gather (Suc N) arg a result stride) ! j =
        cells (VectorOpUnwind_gather N arg (a + stride) (store result (offset (Suc N)) (arg ! a)) stride) ! j"
    by simp
  also have "\<dots> = (if j = 0 then arg ! (a + stride + N * stride + offset 0)
        else if offset N \<le> j \<and> j < offset 0 then arg ! (a + stride + (j - offset N) * stride)
        else cells (store result (offset (Suc N)) (arg ! a)) ! j)"
    using Suc.prems by (intro Suc.IH) simp_all
  also have "\<dots> = (if j = 0 then arg ! (a + Suc N * stride + offset 0)
        else if offset (Suc N) \<le> j \<and> j < offset 0 then arg ! (a + (j - offset (Suc N)) * stride)
        else cells result ! j)"
  proof (cases "j = offset (Suc N)")
    case True
    with off lt Suc.prems show ?thesis
      by (auto simp: nth_list_update add.assoc add.commute)
  next
    case False
    have "stride + (j - offset N) * stride = (j - offset (Suc N)) * stride" if "offset N \<le> j"
    proof -
      from that off have "j - offset (Suc N) = Suc (j - offset N)" by arith
      then show ?thesis by simp
    qed
    with False off show ?thesis
      by (auto simp: nth_list_update add.assoc add.commute)
  qed
  finally show ?case .
qed

lemma gather_block:
  assumes "TILEDARRAY_LOOP_UNWIND \<le> length (cells result)" "j < TILEDARRAY_LOOP_UNWIND"
  shows "cells (VectorOpUnwind_gather VecOpUnwindN arg a result stride) ! j =
       (if j = 0 then arg ! (a + (TILEDARRAY_LOOP_UNWIND - 1) * stride + (TILEDARRAY_LOOP_UNWIND - 1))
        else if j < TILEDARRAY_LOOP_UNWIND - 1 then arg ! (a + j * stride)
        else cells result ! j)"
  using gather_nth [of VecOpUnwindN result j arg a stride] assms
  by (simp add: VecOpUnwindN_less offset_0) (simp add: VecOpUnwindN_def)

text \<open>
  Claim C10. The claim has \<open>scatter\<close> store \<open>arg[k]\<close> into \<open>result[k * s]\<close> and \<open>gather\<close> load
  \<open>arg[k * s]\<close> into \<open>result[k]\<close> for every \<open>k\<close> of a block, so that gathering what was
  scattered gives the block back. \<open>scatter\<close> does so (\<open>scatter_block\<close>). The last step of
  \<open>gather\<close> stores to \<open>result[0]\<close> what it reads at \<open>arg[offset]\<close> past the last stride
  (\<open>gather_block\<close>): scattering the block 1, \<dots>, 8 with stride 1 into an array of zeros and
  gathering it into a block of nines gives 0, 2, \<dots>, 7, 9, with two stores to index 0 and
  none to index 7.
\<close>

theorem gather_does_not_undo_scatter:
  "cells (VectorOpUnwind_scatter VecOpUnwindN [1, 2, 3, 4, 5, 6, 7, 8 :: int]
            (fresh (replicate 15 0)) 0 1) =
     [1, 2, 3, 4, 5, 6, 7, 8, 0, 0, 0, 0, 0, 0, 0]
   \<and> cells (VectorOpUnwind_gather VecOpUnwindN [1, 2, 3, 4, 5, 6, 7, 8, 0, 0, 0, 0, 0, 0, 0 :: int]
            0 (fresh (replicate 8 9)) 1) =
     [0, 2, 3, 4, 5, 6, 7, 9]
   \<and> written (VectorOpUnwind_gather VecOpUnwindN [1, 2, 3, 4, 5, 6, 7, 8, 0, 0, 0, 0, 0, 0, 0 :: int]
            0 (fresh (replicate 8 9)) 1) =
     [0, 1, 2, 3, 4, 5, 6, 0]"
  by code_simp

section \<open>The shape of a permuted tiled tensor\<close>

lemma init_shape_of_empty_shape:
  "shape_m t = [] \<Longrightarrow> init_shape t = Inr t"
  by (simp add: init_shape_def num_blocks_def)

lemma PermuteTiledTensor_new_sparse:
  "\<not> arg_is_dense arg \<Longrightarrow>
     PermuteTiledTensor_new arg p =
       Inr \<lparr>perm_m = p, arg_m = arg, size_m = permute_size p (arg_size arg), shape_m = []\<rparr>"
  by (simp add: PermuteTiledTensor_new_def Bitset_new_def init_shape_of_empty_shape)

lemma init_shape_helper_second_block:
  "init_shape_helper
     \<lparr>arg_is_dense = False, arg_size = [128], arg_order = decreasing_dimension_order,
       arg_get_shape = (replicate 128 False)[65 := True]\<rparr> [1] (Bitset_new 128) 1 =
   Inr ((replicate 128 False)[1 := True])"
  by code_simp

text \<open>
  Claim C1. The claim has the constructor set, for a sparse argument, the bit of every
  destination tile whose source tile is present: permuting the 2 by 2 shape whose only
  present tile is \<open>(0, 1)\<close> by the axis swap should give the shape whose only present tile is
  \<open>(1, 0)\<close>, the bits \<open>[False, False, True, False]\<close>. The constructor sizes \<open>shape_\<close> by the
  volume when the argument is dense and by 0 when it is not, so the loop over the blocks of
  \<open>shape_\<close> has nothing to run over and the node's shape has no bits at all
  (\<open>PermuteTiledTensor_new_sparse\<close>). Run on a shape of the right size, the helper restarts
  the coordinate at the origin for every block and sets, for source bit 65, bit 1
  (\<open>init_shape_helper_second_block\<close>).
\<close>

theorem permuted_sparse_shape_has_no_bits:
  "PermuteTiledTensor_new
     \<lparr>arg_is_dense = False, arg_size = [2, 2], arg_order = decreasing_dimension_order,
       arg_get_shape = [False, True, False, False]\<rparr> [1, 0] =
   Inr \<lparr>perm_m = [1, 0],
        arg_m = \<lparr>arg_is_dense = False, arg_size = [2, 2], arg_order = decreasing_dimension_order,
                 arg_get_shape = [False, True, False, False]\<rparr>,
        size_m = [2, 2], shape_m = []\<rparr>"
  by code_simp

lemma is_zero_returns_the_bit:
  "trange_includes t i \<Longrightarrow>
     is_zero t i = (if is_dense t then Inr True else Bitset_test (shape_m t) i)"
  by (simp add: is_zero_def)

text \<open>
  Claim C2. The claim has \<open>is_zero(i)\<close> return false on a dense node and, on a sparse one,
  true exactly when bit \<open>i\<close> of the shape is clear. The function returns true on a dense
  node, and the bit itself on a sparse one (\<open>is_zero_returns_the_bit\<close>): on the node made
  from a dense 2 by 2 argument tile 0 is reported zero, and on a sparse node whose shape
  marks tile 2 present, tile 2 is reported zero and tile 0 is not.
\<close>

theorem is_zero_of_dense_node_is_true:
  "PermuteTiledTensor_new
     \<lparr>arg_is_dense = True, arg_size = [2, 2], arg_order = decreasing_dimension_order,
       arg_get_shape = []\<rparr> [1, 0] =
   Inr \<lparr>perm_m = [1, 0],
        arg_m = \<lparr>arg_is_dense = True, arg_size = [2, 2], arg_order = decreasing_dimension_order,
                 arg_get_shape = []\<rparr>,
        size_m = [2, 2], shape_m = [False, False, False, False]\<rparr>
   \<and> is_zero \<lparr>perm_m = [1, 0],
        arg_m = \<lparr>arg_is_dense = True, arg_size = [2, 2], arg_order = decreasing_dimension_order,
                 arg_get_shape = []\<rparr>,
        size_m = [2, 2], shape_m = [False, False, False, False]\<rparr> 0 = Inr True
   \<and> is_zero \<lparr>perm_m = [1, 0],
        arg_m = \<lparr>arg_is_dense = False, arg_size = [2, 2], arg_order = decreasing_dimension_order,
                 arg_get_shape = [False, True, False, False]\<rparr>,
        size_m = [2, 2], shape_m = [False, False, True, False]\<rparr> 2 = Inr True
   \<and> is_zero \<lparr>perm_m = [1, 0],
        arg_m = \<lparr>arg_is_dense = False, arg_size = [2, 2], arg_order = decreasing_dimension_order,
                 arg_get_shape = [False, True, False, False]\<rparr>,
        size_m = [2, 2], shape_m = [False, False, True, False]\<rparr> 0 = Inr False"
  by code_simp

end
